theory Spec2Isabelle
  imports Main "HOL-Library.Sublist" "HOL-Library.Product_Lexorder"
begin

section \<open>Strings and characters\<close>

text \<open>
  The checker works on Python \<open>str\<close> values. A \<open>str\<close> is modelled as a \<open>string\<close>, one
  \<open>char\<close> per code point, so the model covers the code points 0 to 255. The character
  classes below are those of Python 3 on that range: \<open>\w\<close> and \<open>\s\<close> of a \<open>str\<close>
  pattern, the white space that \<open>str.strip\<close> removes, and \<open>str.lower\<close>.
\<close>

definition code :: "char \<Rightarrow> nat" where
  "code c = of_char c"

definition in_range :: "nat \<Rightarrow> nat \<Rightarrow> char \<Rightarrow> bool" where
  "in_range lo hi c = (lo \<le> code c \<and> code c \<le> hi)"

definition is_word :: "char \<Rightarrow> bool" where
  \<comment> \<open>\<open>\w\<close>: digits, letters, the underscore, and the alphanumerics above 127\<close>
  "is_word c =
     (in_range 48 57 c \<or> in_range 65 90 c \<or> code c = 95 \<or> in_range 97 122 c \<or>
      code c = 170 \<or> in_range 178 179 c \<or> code c = 181 \<or> in_range 185 186 c \<or>
      in_range 188 190 c \<or> in_range 192 214 c \<or> in_range 216 246 c \<or>
      in_range 248 255 c)"

definition is_space :: "char \<Rightarrow> bool" where
  \<comment> \<open>\<open>\s\<close>, and the characters removed by \<open>str.strip()\<close>\<close>
  "is_space c =
     (in_range 9 13 c \<or> in_range 28 32 c \<or> code c = 133 \<or> code c = 160)"

definition is_ascii_letter :: "char \<Rightarrow> bool" where
  \<comment> \<open>\<open>[a-zA-Z]\<close>\<close>
  "is_ascii_letter c = (in_range 97 122 c \<or> in_range 65 90 c)"

definition lower_char :: "char \<Rightarrow> char" where
  "lower_char c =
     (if in_range 65 90 c \<or> (in_range 192 222 c \<and> code c \<noteq> 215)
      then char_of (code c + 32) else c)"

definition lower :: "string \<Rightarrow> string" where
  \<comment> \<open>\<open>str.lower()\<close>\<close>
  "lower s = map lower_char s"

definition strip :: "string \<Rightarrow> string" where
  \<comment> \<open>\<open>str.strip()\<close>\<close>
  "strip s = rev (dropWhile is_space (rev (dropWhile is_space s)))"

fun str_in :: "string \<Rightarrow> string \<Rightarrow> bool" where
  \<comment> \<open>\<open>p in s\<close> on strings: \<open>p\<close> occurs in \<open>s\<close>\<close>
  "str_in p [] = (p = [])"
| "str_in p (c # cs) = (prefix p (c # cs) \<or> str_in p cs)"

definition startswith :: "string \<Rightarrow> string \<Rightarrow> bool" where
  \<comment> \<open>\<open>s.startswith(p)\<close>\<close>
  "startswith s p = prefix p s"

fun split_on :: "char \<Rightarrow> string \<Rightarrow> string list" where
  \<comment> \<open>\<open>s.split(sep)\<close> for a separator of one character\<close>
  "split_on sep [] = [[]]"
| "split_on sep (c # cs) =
     (if c = sep then [] # split_on sep cs
      else (case split_on sep cs of p # ps \<Rightarrow> (c # p) # ps | [] \<Rightarrow> [[c]]))"

section \<open>Regular expressions\<close>

text \<open>
  Python's \<open>re\<close> is a backtracking matcher: alternatives are tried from left to right, a
  greedy repetition tries the longest run first, a lazy one the shortest, and the first
  way that lets the whole pattern match is taken. \<open>run\<close> lists, in that order of
  preference, every state in which a pattern can stop; a state is the text of group 1 (if
  the group has been closed) and the input that is left. Every repetition in the
  checker's patterns is over a character class, so repetition is given for classes only.
\<close>

datatype regex =
    Lit string                      \<comment> \<open>a literal text\<close>
  | Cls "char \<Rightarrow> bool"               \<comment> \<open>one character of a class\<close>
  | Seq regex regex                 \<comment> \<open>\<open>ab\<close>\<close>
  | Alts "regex list"               \<comment> \<open>\<open>a|b|...\<close>\<close>
  | Opt regex                       \<comment> \<open>\<open>a?\<close>\<close>
  | Plus "char \<Rightarrow> bool"              \<comment> \<open>\<open>[...]+\<close>\<close>
  | Star "char \<Rightarrow> bool"              \<comment> \<open>\<open>[...]*\<close>\<close>
  | LazyStar "char \<Rightarrow> bool"          \<comment> \<open>\<open>[...]*?\<close>\<close>
  | NegLook regex                   \<comment> \<open>\<open>(?!a)\<close>\<close>
  | Group regex                     \<comment> \<open>\<open>(a)\<close>, the capturing group\<close>

type_synonym mstate = "string option \<times> string"

fun run :: "regex \<Rightarrow> mstate \<Rightarrow> mstate list" where
  "run (Lit w) (g, s) = (if prefix w s then [(g, drop (length w) s)] else [])"
| "run (Cls P) (g, s) = (case s of [] \<Rightarrow> [] | c # cs \<Rightarrow> if P c then [(g, cs)] else [])"
| "run (Seq a b) st = concat (map (run b) (run a st))"
| "run (Alts rs) st = concat (map (\<lambda>r. run r st) rs)"
| "run (Opt a) st = run a st @ [st]"
| "run (Plus P) (g, s) = map (\<lambda>k. (g, drop k s)) (rev [1..<Suc (length (takeWhile P s))])"
| "run (Star P) (g, s) = map (\<lambda>k. (g, drop k s)) (rev [0..<Suc (length (takeWhile P s))])"
| "run (LazyStar P) (g, s) = map (\<lambda>k. (g, drop k s)) [0..<Suc (length (takeWhile P s))]"
| "run (NegLook a) st = (if run a st = [] then [st] else [])"
| "run (Group a) (g, s) =
     map (\<lambda>(g', t). (Some (take (length s - length t) s), t)) (run a (g, s))"

definition match_at :: "regex \<Rightarrow> string \<Rightarrow> (nat \<times> string option) option" where
  \<comment> \<open>the match that starts at the first character of \<open>s\<close>: its length and its group\<close>
  "match_at r s =
     (case run r (None, s) of [] \<Rightarrow> None | (g, t) # _ \<Rightarrow> Some (length s - length t, g))"

text \<open>
  \<open>re.findall\<close>, \<open>re.sub\<close> and \<open>re.split\<close> scan from the left for matches that do not
  overlap. None of the checker's patterns matches the empty string, so a match always
  moves the scan forward.
\<close>

fun finditer :: "regex \<Rightarrow> string \<Rightarrow> (string \<times> string option) list" where
  "finditer r [] = []"
| "finditer r (c # cs) =
     (case match_at r (c # cs) of
        None \<Rightarrow> finditer r cs
      | Some (n, g) \<Rightarrow> (take n (c # cs), g) # finditer r (drop (n - 1) cs))"

definition findall :: "regex \<Rightarrow> string \<Rightarrow> string list" where
  \<comment> \<open>\<open>re.findall\<close>: the text of the group when the pattern has one, else of the match\<close>
  "findall r s = map (\<lambda>(m, g). case g of Some x \<Rightarrow> x | None \<Rightarrow> m) (finditer r s)"

fun re_sub :: "regex \<Rightarrow> string \<Rightarrow> string \<Rightarrow> string" where
  \<comment> \<open>\<open>re.sub(r, repl, s)\<close> for a replacement text without back-references\<close>
  "re_sub r repl [] = []"
| "re_sub r repl (c # cs) =
     (case match_at r (c # cs) of
        None \<Rightarrow> c # re_sub r repl cs
      | Some (n, g) \<Rightarrow> repl @ re_sub r repl (drop (n - 1) cs))"

fun re_split :: "regex \<Rightarrow> string \<Rightarrow> string list" where
  \<comment> \<open>\<open>re.split(r, s)\<close> for a pattern without groups\<close>
  "re_split r [] = [[]]"
| "re_split r (c # cs) =
     (case match_at r (c # cs) of
        None \<Rightarrow> (case re_split r cs of p # ps \<Rightarrow> (c # p) # ps | [] \<Rightarrow> [[c]])
      | Some (n, g) \<Rightarrow> [] # re_split r (drop (n - 1) cs))"

text \<open>The least number of characters that a match of a pattern takes.\<close>

fun minlen :: "regex \<Rightarrow> nat" where
  "minlen (Lit w) = length w"
| "minlen (Cls P) = 1"
| "minlen (Seq a b) = minlen a + minlen b"
| "minlen (Alts rs) = (if rs = [] then 0 else Min (set (map minlen rs)))"
| "minlen (Opt a) = 0"
| "minlen (Plus P) = 1"
| "minlen (Star P) = 0"
| "minlen (LazyStar P) = 0"
| "minlen (NegLook a) = 0"
| "minlen (Group a) = minlen a"

section \<open>The patterns of the checker\<close>

definition dquote :: char where
  "dquote = CHR 0x22"

definition squote :: char where
  "squote = CHR 0x27"

definition word_hyphen :: "char \<Rightarrow> bool" where
  \<comment> \<open>\<open>[\w-]\<close>\<close>
  "word_hyphen c = (is_word c \<or> c = CHR ''-'')"

definition attr_char :: "char \<Rightarrow> bool" where
  \<comment> \<open>the class \<open>[\w\-=~|^$*"\':\s]\<close>\<close>
  "attr_char c =
     (is_word c \<or> c = CHR ''-'' \<or> c = CHR ''='' \<or> c = CHR ''~'' \<or> c = CHR ''|'' \<or>
      c = CHR ''^'' \<or> c = CHR ''$'' \<or> c = CHR ''*'' \<or> c = dquote \<or> c = squote \<or>
      c = CHR '':'' \<or> is_space c)"

definition combinator_char :: "char \<Rightarrow> bool" where
  \<comment> \<open>the class \<open>[\s>+~]\<close>\<close>
  "combinator_char c = (is_space c \<or> c = CHR ''>'' \<or> c = CHR ''+'' \<or> c = CHR ''~'')"

definition not_rparen :: "char \<Rightarrow> bool" where
  \<comment> \<open>\<open>[^)]\<close>\<close>
  "not_rparen c = (c \<noteq> CHR '')'')"

definition not_brace :: "char \<Rightarrow> bool" where
  \<comment> \<open>\<open>[^{}]\<close>\<close>
  "not_brace c = (c \<noteq> CHR ''{'' \<and> c \<noteq> CHR ''}'')"

definition any_char :: "char \<Rightarrow> bool" where
  \<comment> \<open>\<open>.\<close> under \<open>re.DOTALL\<close>\<close>
  "any_char c = True"

definition rx_id :: regex where
  \<comment> \<open>\<open>#[\w-]+\<close>\<close>
  "rx_id = Seq (Lit ''#'') (Plus word_hyphen)"

definition rx_class :: regex where
  \<comment> \<open>\<open>\.[\w-]+\<close>\<close>
  "rx_class = Seq (Lit ''.'') (Plus word_hyphen)"

definition rx_attr :: regex where
  \<comment> \<open>\<open>\[[\w\-=~|^$*"\':\s]+\]\<close>\<close>
  "rx_attr = Seq (Lit ''['') (Seq (Plus attr_char) (Lit '']''))"

definition rx_pseudo_element :: regex where
  \<comment> \<open>\<open>::?(?:before|after|first-line|first-letter|backdrop|placeholder|marker|selection)\<close>\<close>
  "rx_pseudo_element =
     Seq (Lit '':'') (Seq (Opt (Lit '':''))
       (Alts [Lit ''before'', Lit ''after'', Lit ''first-line'', Lit ''first-letter'',
              Lit ''backdrop'', Lit ''placeholder'', Lit ''marker'', Lit ''selection'']))"

definition rx_dquoted :: regex where
  \<comment> \<open>\<open>"[^"]*"\<close>\<close>
  "rx_dquoted = Seq (Lit [dquote]) (Seq (Star (\<lambda>c. c \<noteq> dquote)) (Lit [dquote]))"

definition rx_squoted :: regex where
  \<comment> \<open>\<open>'[^']*'\<close>\<close>
  "rx_squoted = Seq (Lit [squote]) (Seq (Star (\<lambda>c. c \<noteq> squote)) (Lit [squote]))"

definition rx_pseudo_class :: regex where
  \<comment> \<open>\<open>:(?!not|is|where|has)(?!before|after|first-line|first-letter)[\w-]+\<close>\<close>
  "rx_pseudo_class =
     Seq (Lit '':'')
       (Seq (NegLook (Alts [Lit ''not'', Lit ''is'', Lit ''where'', Lit ''has'']))
         (Seq (NegLook (Alts [Lit ''before'', Lit ''after'', Lit ''first-line'',
                              Lit ''first-letter'']))
           (Plus word_hyphen)))"

definition rx_not :: regex where
  \<comment> \<open>\<open>:not\(([^)]+)\)\<close>\<close>
  "rx_not = Seq (Lit '':not('') (Seq (Group (Plus not_rparen)) (Lit '')''))"

definition rx_is_has :: regex where
  \<comment> \<open>\<open>:(?:is|has)\(([^)]+)\)\<close>\<close>
  "rx_is_has =
     Seq (Lit '':'') (Seq (Alts [Lit ''is'', Lit ''has''])
       (Seq (Lit ''('') (Seq (Group (Plus not_rparen)) (Lit '')''))))"

definition rx_combinators :: regex where
  \<comment> \<open>\<open>[\s>+~]+\<close>\<close>
  "rx_combinators = Plus combinator_char"

definition rx_pseudo_any :: regex where
  \<comment> \<open>\<open>:[\w-]+(?:\([^)]*\))?\<close>\<close>
  "rx_pseudo_any =
     Seq (Lit '':'') (Seq (Plus word_hyphen)
       (Opt (Seq (Lit ''('') (Seq (Star not_rparen) (Lit '')'')))))"

definition rx_element_name :: regex where
  \<comment> \<open>\<open>^[a-zA-Z][\w-]*\<close>, used with \<open>re.match\<close>, which tries the start of the text only\<close>
  "rx_element_name = Seq (Cls is_ascii_letter) (Star word_hyphen)"

definition rx_comment :: regex where
  \<comment> \<open>\<open>/\*.*?\*/\<close> with \<open>re.DOTALL\<close>\<close>
  "rx_comment = Seq (Lit ''/*'') (Seq (LazyStar any_char) (Lit ''*/''))"

definition rx_prelude :: regex where
  \<comment> \<open>\<open>([^{}]+)\{\<close>\<close>
  "rx_prelude = Seq (Group (Plus not_brace)) (Lit ''{'')"

section \<open>CSSSpecificityCalculator\<close>

type_synonym specificity = "int \<times> int \<times> int \<times> int"

definition DEFAULT_THRESHOLD :: specificity where
  "DEFAULT_THRESHOLD = (0, 1, 3, 3)"

definition init_threshold :: "specificity option \<Rightarrow> specificity" where
  \<comment> \<open>\<open>__init__\<close>: \<open>threshold or DEFAULT_THRESHOLD\<close>; a tuple of four is never falsy\<close>
  "init_threshold t = (case t of None \<Rightarrow> DEFAULT_THRESHOLD | Some th \<Rightarrow> th)"

fun item0 :: "specificity \<Rightarrow> int" where "item0 (a, b, c, d) = a"
fun item1 :: "specificity \<Rightarrow> int" where "item1 (a, b, c, d) = b"
fun item2 :: "specificity \<Rightarrow> int" where "item2 (a, b, c, d) = c"
fun item3 :: "specificity \<Rightarrow> int" where "item3 (a, b, c, d) = d"

definition clean_selector :: "string \<Rightarrow> string" where
  "clean_selector selector =
     (let cleaned = re_sub rx_dquoted [dquote, dquote] selector;
          cleaned = re_sub rx_squoted [squote, squote] cleaned
      in strip cleaned)"

definition count_elements :: "string \<Rightarrow> int" where
  "count_elements selector =
     (let parts = re_split rx_combinators selector
      in fold (\<lambda>part count.
           let element = re_sub rx_id [] part;
               element = re_sub rx_class [] element;
               element = re_sub rx_attr [] element;
               element = re_sub rx_pseudo_any [] element;
               element = strip element
           in if element \<noteq> [] \<and> element \<notin> set [''>'', ''+'', ''~'', '','']
              then (if match_at rx_element_name element \<noteq> None then count + 1 else count)
              else count) parts 0)"

fun max_default :: "int list \<Rightarrow> int \<Rightarrow> int" where
  \<comment> \<open>\<open>max(xs, default=d)\<close>\<close>
  "max_default [] d = d"
| "max_default (x # xs) d = fold max xs x"

subsection \<open>The specificity of a selector\<close>

text \<open>
  \<open>calculate\<close> and \<open>_count_pseudo_classes\<close> call each other; that the recursion ends
  is shown below, once the matcher has been characterised.
\<close>

function calculate :: "string \<Rightarrow> specificity"
  and count_pseudo_classes :: "string \<Rightarrow> int" where
  "calculate selector =
     (if str_in ''style='' (lower selector) then (1, 0, 0, 0)
      else
        let cleaned = clean_selector selector;
            ids = int (length (findall rx_id cleaned));
            classes = int (length (findall rx_class cleaned)) +
                      int (length (findall rx_attr cleaned)) +
                      count_pseudo_classes cleaned;
            elements = count_elements cleaned +
                       int (length (findall rx_pseudo_element cleaned))
        in (0, ids, classes, elements))"
| "count_pseudo_classes selector =
     (let count = 0;
          pseudo_classes = findall rx_pseudo_class selector;
          count = count + int (length pseudo_classes);
          not_matches = findall rx_not selector;
          count = fold (\<lambda>arg count. let spec = calculate arg in count + item2 spec)
                    not_matches count;
          is_matches = findall rx_is_has selector;
          count = fold (\<lambda>args count.
                    let selectors = split_on CHR '','' args;
                        max_classes = max_default
                          (map (\<lambda>s. item2 (calculate (strip s))) selectors) 0
                    in count + max_classes) is_matches count
      in count)"
  by pat_completeness auto

subsection \<open>Formatting and the threshold\<close>

text \<open>
  \<open>format_specificity\<close> renders the four integers in decimal, as an f-string does.
\<close>

function str_nat :: "nat \<Rightarrow> string" where
  "str_nat n =
     (if n < 10 then [char_of (48 + n)] else str_nat (n div 10) @ [char_of (48 + n mod 10)])"
  by pat_completeness auto
termination
  by (relation "measure id") auto

definition str_int :: "int \<Rightarrow> string" where
  "str_int i = (if i < 0 then CHR ''-'' # str_nat (nat (- i)) else str_nat (nat i))"

definition format_specificity :: "specificity \<Rightarrow> string" where
  "format_specificity spec =
     str_int (item0 spec) @ '','' @ str_int (item1 spec) @ '','' @
     str_int (item2 spec) @ '','' @ str_int (item3 spec)"

text \<open>
  \<open>spec > self.threshold\<close> compares two tuples as Python does: the first position at
  which the items differ decides, and equal tuples are not greater.
\<close>

fun tuple_gt :: "specificity \<Rightarrow> specificity \<Rightarrow> bool" where
  "tuple_gt (a0, a1, a2, a3) (b0, b1, b2, b3) =
     (if a0 \<noteq> b0 then a0 > b0
      else if a1 \<noteq> b1 then a1 > b1
      else if a2 \<noteq> b2 then a2 > b2
      else if a3 \<noteq> b3 then a3 > b3
      else False)"

record calculator =
  threshold :: specificity

definition new_calculator :: "specificity option \<Rightarrow> calculator" where
  "new_calculator t = \<lparr>threshold = init_threshold t\<rparr>"

definition is_high_specificity :: "calculator \<Rightarrow> specificity \<Rightarrow> bool" where
  "is_high_specificity self spec = tuple_gt spec (threshold self)"

record analysis =
  an_selector :: string
  an_specificity :: string
  an_specificity_tuple :: specificity
  an_is_high :: bool
  an_threshold :: string

definition analyze_selector :: "calculator \<Rightarrow> string \<Rightarrow> analysis" where
  "analyze_selector self selector =
     (let spec = calculate selector
      in \<lparr>an_selector = selector,
          an_specificity = format_specificity spec,
          an_specificity_tuple = spec,
          an_is_high = is_high_specificity self spec,
          an_threshold = format_specificity (threshold self)\<rparr>)"

section \<open>CSSFileAnalyzer\<close>

definition extract_selectors :: "string \<Rightarrow> string list" where
  "extract_selectors css_content =
     (let css_content = re_sub rx_comment [] css_content;
          matches = findall rx_prelude css_content
      in fold (\<lambda>match selectors.
           if startswith (strip match) ''@'' then selectors
           else
             let parts = split_on CHR '','' match
             in fold (\<lambda>part selectors.
                  let selector = strip part
                  in if selector \<noteq> [] \<and> \<not> startswith selector ''@''
                     then selectors @ [selector] else selectors) parts selectors)
           matches [])"

record report =
  rp_file :: string
  rp_total_selectors :: int
  rp_high_specificity_count :: int
  rp_threshold :: string
  rp_selectors :: "analysis list"

definition analyze_content :: "calculator \<Rightarrow> string \<Rightarrow> string \<Rightarrow> report" where
  \<comment> \<open>\<open>analyze_file\<close> after the file has been read\<close>
  "analyze_content calc file_path content =
     (let selectors = extract_selectors content;
          (results, high_specificity_count) =
            fold (\<lambda>selector (results, high_specificity_count).
                   let analysis = analyze_selector calc selector
                   in (results @ [analysis],
                       if an_is_high analysis then high_specificity_count + 1
                       else high_specificity_count))
              selectors ([], 0)
      in \<lparr>rp_file = file_path,
          rp_total_selectors = int (length selectors),
          rp_high_specificity_count = high_specificity_count,
          rp_threshold = format_specificity (threshold calc),
          rp_selectors = results\<rparr>)"

datatype error = ReadFailed

definition analyze_file :: "calculator \<Rightarrow> string \<Rightarrow> string option \<Rightarrow> error + report" where
  \<comment> \<open>the third argument is what reading the file gives: \<open>None\<close> when \<open>open\<close> or
      \<open>read\<close> raises, which the code turns into a result with an \<open>error\<close> entry\<close>
  "analyze_file calc file_path content =
     (case content of
        None \<Rightarrow> Inl ReadFailed
      | Some text \<Rightarrow> Inr (analyze_content calc file_path text))"

section \<open>Notions of the specification\<close>

text \<open>
  The definitions of this section follow the words of the specification, not the code:
  the lexicographic order on specificities, the occurrence of a text in a string when
  letters are compared without regard to their (ASCII) case, and the maximum over the
  candidates of \<open>:is(...)\<close> and \<open>:has(...)\<close>.
\<close>

definition lex_greater :: "specificity \<Rightarrow> specificity \<Rightarrow> bool" where
  \<comment> \<open>\<open>a\<close> is strictly greater than \<open>b\<close> in the lexicographic order over inline, id,
      class, element\<close>
  "lex_greater a b =
     (item0 a > item0 b \<or>
      (item0 a = item0 b \<and>
        (item1 a > item1 b \<or>
          (item1 a = item1 b \<and>
            (item2 a > item2 b \<or>
              (item2 a = item2 b \<and> item3 a > item3 b))))))"

definition ci_eq :: "char \<Rightarrow> char \<Rightarrow> bool" where
  \<comment> \<open>the same character, or the same ASCII letter in the other case\<close>
  "ci_eq a b =
     (a = b \<or> (is_ascii_letter a \<and> is_ascii_letter b \<and>
                (code a + 32 = code b \<or> code b + 32 = code a)))"

fun ci_prefix :: "string \<Rightarrow> string \<Rightarrow> bool" where
  "ci_prefix [] s = True"
| "ci_prefix (p # ps) [] = False"
| "ci_prefix (p # ps) (c # cs) = (ci_eq p c \<and> ci_prefix ps cs)"

fun ci_in :: "string \<Rightarrow> string \<Rightarrow> bool" where
  \<comment> \<open>\<open>p\<close> occurs in \<open>s\<close>, compared case-insensitively\<close>
  "ci_in p [] = (p = [])"
| "ci_in p (c # cs) = (ci_prefix p (c # cs) \<or> ci_in p cs)"


section \<open>Facts about the matcher\<close>

text \<open>
  A pattern only consumes input: what is left after a match is a suffix of the text, and
  is shorter than the text by at least the least length of the pattern.
\<close>

lemma run_suffix: "(g', t) \<in> set (run r (g, s)) \<Longrightarrow> suffix t s"
proof (induction r arbitrary: g s g' t)
  case (Seq a b)
  from Seq.prems obtain g1 t1 where a: "(g1, t1) \<in> set (run a (g, s))"
    and b: "(g', t) \<in> set (run b (g1, t1))" by auto
  from Seq.IH(1)[OF a] Seq.IH(2)[OF b] show ?case by (rule suffix_order.trans[rotated])
next
  case (Alts rs)
  then show ?case by auto
next
  case (Opt a)
  then show ?case by auto
next
  case (NegLook a)
  then show ?case by (auto split: if_splits)
next
  case (Group a)
  then show ?case by auto
qed (auto simp: suffix_drop suffix_ConsI split: list.splits if_splits)

lemma run_minlen: "(g', t) \<in> set (run r (g, s)) \<Longrightarrow> length t + minlen r \<le> length s"
proof (induction r arbitrary: g s g' t)
  case (Lit w)
  then show ?case by (auto simp: prefix_def split: if_splits)
next
  case (Seq a b)
  from Seq.prems obtain g1 t1 where a: "(g1, t1) \<in> set (run a (g, s))"
    and b: "(g', t) \<in> set (run b (g1, t1))" by auto
  from Seq.IH(1)[OF a] Seq.IH(2)[OF b] show ?case by simp
next
  case (Alts rs)
  from Alts.prems obtain x where x: "x \<in> set rs" "(g', t) \<in> set (run x (g, s))" by auto
  from x(1) have m: "Min (minlen ` set rs) \<le> minlen x" by (intro Min_le) auto
  from Alts.IH[OF x] m have "length t + Min (minlen ` set rs) \<le> length s" by linarith
  then show ?case using x(1) by auto
next
  case (Plus P)
  then show ?case using length_takeWhile_le[of P s] by auto
next
  case (NegLook a)
  then show ?case by (auto split: if_splits)
next
  case (Opt a)
  from Opt.prems have "(g', t) \<in> set (run a (g, s)) \<or> t = s" by auto
  then show ?case using Opt.IH by fastforce
next
  case (Group a)
  from Group.prems obtain g0 where "(g0, t) \<in> set (run a (g, s))" by auto
  from Group.IH[OF this] show ?case by simp
qed (auto split: list.splits if_splits)

lemma match_at_set:
  "match_at r s = Some (n, g) \<Longrightarrow> \<exists>t. (g, t) \<in> set (run r (None, s)) \<and> n = length s - length t"
  unfolding match_at_def by (auto split: list.splits)

lemma match_at_bounds:
  "match_at r s = Some (n, g) \<Longrightarrow> minlen r \<le> n \<and> n \<le> length s"
  by (drule match_at_set) (auto dest: run_minlen)

lemma match_at_Lit_first:
  "c \<noteq> d \<Longrightarrow> match_at (Seq (Lit (d # w)) r) (c # cs) = None"
  by (simp add: match_at_def)

lemma run_Seq_elim:
  "(g', t) \<in> set (run (Seq a b) st) \<Longrightarrow>
     \<exists>g1 t1. (g1, t1) \<in> set (run a st) \<and> (g', t) \<in> set (run b (g1, t1))"
  by auto

lemma run_Lit_elim:
  "(g', t) \<in> set (run (Lit w) (g, s)) \<Longrightarrow> g' = g \<and> prefix w s"
  by (auto split: if_splits)


lemma run_Group_elim:
  "(g', t) \<in> set (run (Group a) (g, s)) \<Longrightarrow>
     \<exists>g0. (g0, t) \<in> set (run a (g, s)) \<and> g' = Some (take (length s - length t) s)"
  by auto

lemma run_Plus_elim:
  "(g', t) \<in> set (run (Plus P) (g, s)) \<Longrightarrow>
     \<exists>k. 1 \<le> k \<and> k \<le> length (takeWhile P s) \<and> t = drop k s \<and> g' = g"
  by force

text \<open>
  The group \<open>([...]+)\<close> followed by a literal: the group is closed, its text is a run of
  the class taken from the front of the input, and the literal occurs in the input.
\<close>

lemma run_group_then_lit:
  assumes "(g', t) \<in> set (run (Seq (Group (Plus P)) (Lit (d # w))) (g, s))"
  shows "\<exists>y. g' = Some y \<and> length y \<le> length s \<and> (\<forall>c \<in> set y. P c) \<and> d \<in> set s"
proof -
  from run_Seq_elim[OF assms] obtain g1 t1 where
    a: "(g1, t1) \<in> set (run (Group (Plus P)) (g, s))"
    and b: "(g', t) \<in> set (run (Lit (d # w)) (g1, t1))" by blast
  from run_Group_elim[OF a] obtain g0 where p: "(g0, t1) \<in> set (run (Plus P) (g, s))"
    and g1: "g1 = Some (take (length s - length t1) s)" by blast
  from run_Plus_elim[OF p] obtain k where k: "k \<le> length (takeWhile P s)"
    and t1: "t1 = drop k s" by blast
  from k have "k \<le> length s" using length_takeWhile_le[of P s] by simp
  with t1 g1 have y: "g1 = Some (take k s)" by simp
  have "take k s = take k (takeWhile P s)"
    using k by (metis takeWhile_dropWhile_id take_append take_all_iff append_Nil2
        diff_is_0_eq take_0)
  moreover have "\<forall>c \<in> set (take k (takeWhile P s)). P c"
    by (meson in_set_takeD set_takeWhileD)
  ultimately have cls: "\<forall>c \<in> set (take k s). P c" by simp
  from run_Lit_elim[OF b] have g': "g' = g1" and pre: "prefix (d # w) t1" by simp_all
  from pre have "d \<in> set t1" by (auto simp: prefix_def)
  with t1 have "d \<in> set s" by (auto dest: in_set_dropD)
  with g' y cls show ?thesis by simp
qed



subsection \<open>Scanning\<close>

lemma finditer_match:
  "(m, g) \<in> set (finditer r s) \<Longrightarrow>
     \<exists>t n. suffix t s \<and> match_at r t = Some (n, g) \<and> m = take n t"
proof (induction r s rule: finditer.induct)
  case (1 r)
  then show ?case by simp
next
  case (2 r c cs)
  show ?case
  proof (cases "match_at r (c # cs)")
    case None
    with 2 show ?thesis by (auto intro: suffix_ConsI)
  next
    case (Some p)
    obtain n g0 where p: "p = (n, g0)" by (cases p)
    from 2(3) Some p
    have "(m, g) = (take n (c # cs), g0) \<or> (m, g) \<in> set (finditer r (drop (n - 1) cs))"
      by simp
    then show ?thesis
    proof
      assume "(m, g) = (take n (c # cs), g0)"
      with Some p show ?thesis by (intro exI[of _ "c # cs"] exI[of _ n]) simp
    next
      assume "(m, g) \<in> set (finditer r (drop (n - 1) cs))"
      from 2(2)[OF Some p[symmetric] this] obtain t k where
        t: "suffix t (drop (n - 1) cs)" "match_at r t = Some (k, g)" "m = take k t" by blast
      have "suffix (drop (n - 1) cs) (c # cs)"
        by (simp add: suffix_ConsI suffix_drop)
      with t(1) have "suffix t (c # cs)" by (rule suffix_order.trans)
      with t(2,3) show ?thesis by blast
    qed
  qed
qed

lemma finditer_no_match:
  assumes "\<And>t. suffix t s \<Longrightarrow> match_at r t = None"
  shows "finditer r s = []"
  using assms
proof (induction s)
  case Nil
  show ?case by simp
next
  case (Cons c cs)
  have "match_at r (c # cs) = None" by (rule Cons.prems) simp
  moreover have "finditer r cs = []"
    by (rule Cons.IH) (simp add: Cons.prems suffix_ConsI)
  ultimately show ?case by simp
qed

lemma findall_group_property:
  assumes m: "\<And>t n g. match_at r t = Some (n, g) \<Longrightarrow>
                \<exists>y. g = Some y \<and> length y < length t \<and> Q y"
    and x: "x \<in> set (findall r s)"
  shows "length x < length s \<and> Q x"
proof -
  from x obtain mt g where mg: "(mt, g) \<in> set (finditer r s)"
    and xe: "x = (case g of Some y \<Rightarrow> y | None \<Rightarrow> mt)"
    by (auto simp: findall_def)
  from finditer_match[OF mg] obtain t n where t: "suffix t s" "match_at r t = Some (n, g)"
    by blast
  from m[OF t(2)] obtain y where "g = Some y" "length y < length t" "Q y" by blast
  with xe suffix_length_le[OF t(1)] show ?thesis by simp
qed

lemma length_re_sub:
  "length repl \<le> minlen r \<Longrightarrow> length (re_sub r repl s) \<le> length s"
proof (induction r repl s rule: re_sub.induct)
  case (1 r repl)
  then show ?case by simp
next
  case (2 r repl c cs)
  show ?case
  proof (cases "match_at r (c # cs)")
    case None
    with 2 show ?thesis by simp
  next
    case (Some p)
    obtain n g where p: "p = (n, g)" by (cases p)
    from match_at_bounds Some p have "minlen r \<le> n" "n \<le> Suc (length cs)" by fastforce+
    moreover from 2(2)[OF Some p[symmetric] 2(3)]
    have "length (re_sub r repl (drop (n - 1) cs)) \<le> length cs - (n - 1)" by simp
    ultimately show ?thesis using Some p 2(3) by simp
  qed
qed

lemma set_re_sub: "set (re_sub r repl s) \<subseteq> set s \<union> set repl"
proof (induction r repl s rule: re_sub.induct)
  case (1 r repl)
  show ?case by simp
next
  case (2 r repl c cs)
  show ?case
  proof (cases "match_at r (c # cs)")
    case None
    with 2 show ?thesis by auto
  next
    case (Some p)
    obtain n g where p: "p = (n, g)" by (cases p)
    have "set (re_sub r repl (drop (n - 1) cs)) \<subseteq> set (drop (n - 1) cs) \<union> set repl"
      by (rule 2(2)[OF Some p[symmetric]])
    moreover have "set (drop (n - 1) cs) \<subseteq> set cs" by (rule set_drop_subset)
    ultimately show ?thesis using Some p by auto
  qed
qed

lemma re_sub_absent:
  "d \<notin> set s \<Longrightarrow> re_sub (Seq (Lit (d # w)) r) repl s = s"
proof (induction s)
  case Nil
  show ?case by simp
next
  case (Cons c cs)
  then have "c \<noteq> d" "d \<notin> set cs" by auto
  with Cons.IH show ?case by (simp add: match_at_Lit_first)
qed

subsection \<open>String operations\<close>

lemma length_strip: "length (strip s) \<le> length s"
  unfolding strip_def
  by (metis length_dropWhile_le length_rev order_trans)

lemma set_strip: "set (strip s) \<subseteq> set s"
  unfolding strip_def by (auto dest!: set_dropWhileD)

lemma strip_blank:
  assumes "\<forall>c \<in> set s. is_space c"
  shows "strip s = []"
  using assms by (auto simp: strip_def dest: set_dropWhileD)

lemma split_on_not_Nil: "split_on sep s \<noteq> []"
  by (induction s) (auto split: list.splits)

lemma split_on_piece:
  "p \<in> set (split_on sep s) \<Longrightarrow> length p \<le> length s \<and> set p \<subseteq> set s"
proof (induction s arbitrary: p)
  case Nil
  then show ?case by simp
next
  case (Cons c cs)
  show ?case
  proof (cases "c = sep")
    case True
    with Cons show ?thesis by fastforce
  next
    case False
    show ?thesis
    proof (cases "split_on sep cs")
      case Nil
      with False Cons.prems show ?thesis by simp
    next
      case (Cons q qs)
      with False Cons.prems have "p = c # q \<or> p \<in> set qs" by simp
      moreover have "length q \<le> length cs \<and> set q \<subseteq> set cs"
        using Cons.IH[of q] Cons by simp
      moreover have "p \<in> set qs \<Longrightarrow> length p \<le> length cs \<and> set p \<subseteq> set cs"
        using Cons.IH[of p] Cons by simp
      ultimately show ?thesis by auto
    qed
  qed
qed

lemma str_in_iff_sublist: "str_in p s = sublist p s"
proof (induction s)
  case Nil
  show ?case by simp
next
  case (Cons c cs)
  have "str_in p (c # cs) = (prefix p (c # cs) \<or> str_in p cs)" by simp
  also have "\<dots> = (prefix p (c # cs) \<or> sublist p cs)" by (simp only: Cons.IH)
  also have "\<dots> = sublist p (c # cs)" by (simp only: sublist_Cons_right)
  finally show ?case .
qed

subsection \<open>Comparing without regard to case\<close>

lemma code_eq_iff: "(c = d) = (code c = code d)"
  by (simp add: code_def)

lemma code_lower_char:
  "code (lower_char c) =
     (if in_range 65 90 c \<or> (in_range 192 222 c \<and> code c \<noteq> 215)
      then code c + 32 else code c)"
  by (auto simp: lower_char_def in_range_def code_def)

lemma ci_arith:
  fixes n k :: nat
  assumes "(97 \<le> k \<and> k \<le> 122) \<or> k = 61"
  shows "(k = n \<or> (((97 \<le> k \<and> k \<le> 122) \<or> (65 \<le> k \<and> k \<le> 90)) \<and>
                  ((97 \<le> n \<and> n \<le> 122) \<or> (65 \<le> n \<and> n \<le> 90)) \<and>
                  (k + 32 = n \<or> n + 32 = k)))
       = ((if (65 \<le> n \<and> n \<le> 90) \<or> (192 \<le> n \<and> n \<le> 222 \<and> n \<noteq> 215)
           then n + 32 else n) = k)"
  using assms by (cases "(65 \<le> n \<and> n \<le> 90) \<or> (192 \<le> n \<and> n \<le> 222 \<and> n \<noteq> 215)") auto

lemma ci_eq_style:
  assumes "x \<in> set ''style=''"
  shows "ci_eq x c = (lower_char c = x)"
proof -
  from assms have k: "(97 \<le> code x \<and> code x \<le> 122) \<or> code x = 61"
    by (auto simp: code_def)
  have "ci_eq x c =
     (code x = code c \<or> (((97 \<le> code x \<and> code x \<le> 122) \<or> (65 \<le> code x \<and> code x \<le> 90)) \<and>
        ((97 \<le> code c \<and> code c \<le> 122) \<or> (65 \<le> code c \<and> code c \<le> 90)) \<and>
        (code x + 32 = code c \<or> code c + 32 = code x)))"
    unfolding ci_eq_def is_ascii_letter_def in_range_def code_eq_iff[of x c] ..
  also have "\<dots> = ((if (65 \<le> code c \<and> code c \<le> 90) \<or>
                        (192 \<le> code c \<and> code c \<le> 222 \<and> code c \<noteq> 215)
                     then code c + 32 else code c) = code x)"
    by (rule ci_arith[OF k])
  also have "\<dots> = (code (lower_char c) = code x)"
    by (simp only: code_lower_char in_range_def conj_assoc)
  also have "\<dots> = (lower_char c = x)" by (rule code_eq_iff[symmetric])
  finally show ?thesis .
qed

lemma ci_prefix_lower:
  "set p \<subseteq> set ''style='' \<Longrightarrow> ci_prefix p s = prefix p (lower s)"
proof (induction p s rule: ci_prefix.induct)
  case (1 s)
  show ?case by simp
next
  case (2 p ps)
  show ?case by (simp add: lower_def)
next
  case (3 p ps c cs)
  from 3(2) have "p \<in> set ''style=''" "set ps \<subseteq> set ''style=''" by auto
  with 3(1) ci_eq_style[of p c] show ?case by (auto simp: lower_def)
qed

lemma ci_in_style: "ci_in ''style='' s = str_in ''style='' (lower s)"
proof (induction s)
  case Nil
  show ?case by (simp add: lower_def)
next
  case (Cons c cs)
  have "ci_prefix ''style='' (c # cs) = prefix ''style='' (lower (c # cs))"
    by (rule ci_prefix_lower) simp
  with Cons show ?case by (simp add: lower_def)
qed

section \<open>The recursion of \<open>calculate\<close>\<close>

text \<open>
  A match of the \<open>:not\<close> pattern or of the \<open>:is\<close>/\<open>:has\<close> pattern has a group that is
  shorter than the text, holds no closing parenthesis, and needs a closing parenthesis
  in the text.
\<close>

lemma match_rx_not:
  assumes "match_at rx_not s = Some (n, g)"
  shows "\<exists>y. g = Some y \<and> length y < length s \<and> CHR '')'' \<notin> set y \<and> CHR '')'' \<in> set s"
proof -
  from match_at_set[OF assms] obtain t where
    "(g, t) \<in> set (run (Seq (Lit '':not('') (Seq (Group (Plus not_rparen)) (Lit '')'')))
       (None, s))"
    unfolding rx_not_def by blast
  from run_Seq_elim[OF this] obtain g1 t1 where
    a: "(g1, t1) \<in> set (run (Lit '':not('') (None, s))"
    and r: "(g, t) \<in> set (run (Seq (Group (Plus not_rparen)) (Lit '')'')) (g1, t1))" by blast
  from run_minlen[OF a] have l: "length t1 < length s" by simp
  from run_suffix[OF a] have sub: "set t1 \<subseteq> set s" by (rule set_mono_suffix)
  from run_group_then_lit[OF r] l sub show ?thesis by (auto simp: not_rparen_def)
qed

lemma match_rx_is_has:
  assumes "match_at rx_is_has s = Some (n, g)"
  shows "\<exists>y. g = Some y \<and> length y < length s \<and> CHR '')'' \<notin> set y \<and> CHR '')'' \<in> set s"
proof -
  from match_at_set[OF assms] obtain t where
    "(g, t) \<in> set (run (Seq (Lit '':'') (Seq (Alts [Lit ''is'', Lit ''has''])
       (Seq (Lit ''('') (Seq (Group (Plus not_rparen)) (Lit '')''))))) (None, s))"
    unfolding rx_is_has_def by blast
  from run_Seq_elim[OF this] obtain g1 t1 where
    a: "(g1, t1) \<in> set (run (Lit '':'') (None, s))"
    and r1: "(g, t) \<in> set (run (Seq (Alts [Lit ''is'', Lit ''has''])
       (Seq (Lit ''('') (Seq (Group (Plus not_rparen)) (Lit '')'')))) (g1, t1))" by blast
  from run_Seq_elim[OF r1] obtain g2 t2 where
    b: "(g2, t2) \<in> set (run (Alts [Lit ''is'', Lit ''has'']) (g1, t1))"
    and r2: "(g, t) \<in> set (run (Seq (Lit ''('') (Seq (Group (Plus not_rparen)) (Lit '')'')))
       (g2, t2))" by blast
  from run_Seq_elim[OF r2] obtain g3 t3 where
    c: "(g3, t3) \<in> set (run (Lit ''('') (g2, t2))"
    and r3: "(g, t) \<in> set (run (Seq (Group (Plus not_rparen)) (Lit '')'')) (g3, t3))" by blast
  from run_minlen[OF a] run_minlen[OF b] run_minlen[OF c]
  have l: "length t3 < length s" by simp
  from run_suffix[OF a] run_suffix[OF b] run_suffix[OF c]
  have sub: "set t3 \<subseteq> set s" by (meson set_mono_suffix subset_trans)
  from run_group_then_lit[OF r3] l sub show ?thesis by (auto simp: not_rparen_def)
qed

lemma not_arg:
  "arg \<in> set (findall rx_not selector) \<Longrightarrow>
     length arg < length selector \<and> CHR '')'' \<notin> set arg"
  by (rule findall_group_property[where r = rx_not and Q = "\<lambda>y. CHR '')'' \<notin> set y"])
     (auto dest: match_rx_not)

lemma is_has_args:
  "args \<in> set (findall rx_is_has selector) \<Longrightarrow>
     length args < length selector \<and> CHR '')'' \<notin> set args"
  by (rule findall_group_property[where r = rx_is_has and Q = "\<lambda>y. CHR '')'' \<notin> set y"])
     (auto dest: match_rx_is_has)

lemma is_has_piece:
  assumes "args \<in> set (findall rx_is_has selector)" and "p \<in> set (split_on CHR '','' args)"
  shows "length (strip p) < length selector \<and> CHR '')'' \<notin> set (strip p)"
proof -
  from is_has_args[OF assms(1)]
  have a: "length args < length selector" "CHR '')'' \<notin> set args" by simp_all
  from split_on_piece[OF assms(2)] have p: "length p \<le> length args" "set p \<subseteq> set args"
    by simp_all
  from a(1) p(1) length_strip[of p] have "length (strip p) < length selector" by linarith
  moreover from a(2) p(2) set_strip[of p] have "CHR '')'' \<notin> set (strip p)" by auto
  ultimately show ?thesis by simp
qed

lemma findall_without_rparen:
  assumes "CHR '')'' \<notin> set s"
  shows "findall rx_not s = [] \<and> findall rx_is_has s = []"
proof -
  have n: "CHR '')'' \<notin> set t" if "suffix t s" for t
    using assms set_mono_suffix[OF that] by auto
  have "finditer rx_not s = []"
  proof (rule finditer_no_match)
    fix t assume "suffix t s"
    from n[OF this] show "match_at rx_not t = None"
      using match_rx_not[of t] by (cases "match_at rx_not t") auto
  qed
  moreover have "finditer rx_is_has s = []"
  proof (rule finditer_no_match)
    fix t assume "suffix t s"
    from n[OF this] show "match_at rx_is_has t = None"
      using match_rx_is_has[of t] by (cases "match_at rx_is_has t") auto
  qed
  ultimately show ?thesis by (simp add: findall_def)
qed

text \<open>Cleaning a selector neither lengthens it nor brings in a parenthesis.\<close>

lemma length_clean_selector: "length (clean_selector s) \<le> length s"
proof -
  let ?d = "re_sub rx_dquoted [dquote, dquote] s"
  let ?q = "re_sub rx_squoted [squote, squote] ?d"
  have "length (clean_selector s) = length (strip ?q)"
    by (simp add: clean_selector_def Let_def)
  also have "\<dots> \<le> length ?q" by (rule length_strip)
  also have "\<dots> \<le> length ?d" by (rule length_re_sub) (simp add: rx_squoted_def)
  also have "\<dots> \<le> length s" by (rule length_re_sub) (simp add: rx_dquoted_def)
  finally show ?thesis .
qed

lemma clean_selector_no_rparen:
  assumes "CHR '')'' \<notin> set s"
  shows "CHR '')'' \<notin> set (clean_selector s)"
proof -
  let ?d = "re_sub rx_dquoted [dquote, dquote] s"
  let ?q = "re_sub rx_squoted [squote, squote] ?d"
  have "set ?d \<subseteq> set s \<union> {dquote}" using set_re_sub[of rx_dquoted "[dquote, dquote]" s] by simp
  moreover have "set ?q \<subseteq> set ?d \<union> {squote}"
    using set_re_sub[of rx_squoted "[squote, squote]" ?d] by simp
  moreover have "set (clean_selector s) \<subseteq> set ?q"
    unfolding clean_selector_def Let_def by (rule set_strip)
  ultimately have "set (clean_selector s) \<subseteq> set s \<union> {dquote, squote}" by blast
  with assms show ?thesis by (auto simp: dquote_def squote_def)
qed

lemma no_rparen_no_recursion:
  assumes "CHR '')'' \<notin> set s"
  shows "findall rx_not (clean_selector s) = [] \<and> findall rx_is_has (clean_selector s) = []"
  by (rule findall_without_rparen) (rule clean_selector_no_rparen[OF assms])

text \<open>
  The recursion ends: twice the length of the string, plus one for \<open>calculate\<close>, falls
  with every call.
\<close>

termination calculate
proof (relation "measure (\<lambda>x. case x of Inl s \<Rightarrow> 2 * length s + 1 | Inr s \<Rightarrow> 2 * length s)",
    goal_cases)
  case 1
  then show ?case by simp
next
  case (2 selector cleaned)
  then show ?case using length_clean_selector[of selector] by simp
next
  case 3
  then show ?case by (auto dest: not_arg)
next
  case 4
  then show ?case by (auto dest: is_has_piece)
qed

declare calculate.simps [simp del] count_pseudo_classes.simps [simp del]

section \<open>Properties\<close>

subsection \<open>The equations of the recursion\<close>

lemma calculate_style: "str_in ''style='' (lower s) \<Longrightarrow> calculate s = (1, 0, 0, 0)"
  by (subst calculate.simps) simp

lemma calculate_unfold:
  "\<not> str_in ''style='' (lower s) \<Longrightarrow>
   calculate s =
     (0, int (length (findall rx_id (clean_selector s))),
      int (length (findall rx_class (clean_selector s))) +
      int (length (findall rx_attr (clean_selector s))) +
      count_pseudo_classes (clean_selector s),
      count_elements (clean_selector s) +
      int (length (findall rx_pseudo_element (clean_selector s))))"
  by (subst calculate.simps) (simp add: Let_def)

lemma fold_add_sum:
  "fold (\<lambda>x (c::int). c + f x) xs c0 = c0 + sum_list (map f xs)"
  by (induction xs arbitrary: c0) simp_all

lemma max_default_Max:
  assumes "xs \<noteq> []"
  shows "max_default xs d = Max (set xs)"
proof -
  from assms obtain x ys where xs: "xs = x # ys" by (cases xs) auto
  have "max_default (x # ys) d = fold max ys x" by simp
  also have "\<dots> = Max (set (x # ys))" by (rule Max.set_eq_fold[symmetric])
  finally show ?thesis using xs by simp
qed

lemma count_pseudo_classes_sum:
  "count_pseudo_classes s =
     int (length (findall rx_pseudo_class s)) +
     sum_list (map (\<lambda>arg. item2 (calculate arg)) (findall rx_not s)) +
     sum_list (map (\<lambda>args. Max (set (map (\<lambda>c. item2 (calculate (strip c)))
                                        (split_on CHR '','' args))))
                (findall rx_is_has s))"
  by (subst count_pseudo_classes.simps)
     (simp add: Let_def fold_add_sum max_default_Max split_on_not_Nil)

subsection \<open>The inline-style marker\<close>

text \<open>
  C5. When \<open>style=\<close> occurs in the selector, compared case-insensitively,
  \<open>calculate\<close> returns (1,0,0,0) whatever else the selector holds; when it does not
  occur, the inline component of the result is 0.
\<close>

theorem calculate_inline_style:
  "(ci_in ''style='' s \<longrightarrow> calculate s = (1, 0, 0, 0)) \<and>
   (\<not> ci_in ''style='' s \<longrightarrow> item0 (calculate s) = 0)"
  by (simp add: ci_in_style calculate_style calculate_unfold)

theorem calculate_inline_style_witness:
  "ci_in ''style='' ''a[STYLE=x] .b'' \<and> calculate ''a[STYLE=x] .b'' = (1, 0, 0, 0) \<and>
   \<not> ci_in ''style='' ''a.b'' \<and> item0 (calculate ''a.b'') = 0"
proof -
  have y: "ci_in ''style='' ''a[STYLE=x] .b''" by code_simp
  have n: "\<not> ci_in ''style='' ''a.b''" by code_simp
  from y n calculate_inline_style[of "''a[STYLE=x] .b''"] calculate_inline_style[of "''a.b''"]
  show ?thesis by blast
qed

subsection \<open>Termination and the depth of the recursion\<close>

text \<open>
  C8. \<open>calculate\<close> is a total function: it is defined by recursion on the length of
  the selector, and its defining equation holds for every input. Each recursive call,
  on an argument of \<open>:not(...)\<close> or on a stripped, comma-separated piece of the
  arguments of \<open>:is(...)\<close> or \<open>:has(...)\<close>, receives a string strictly shorter than the
  selector. Such a string holds no closing parenthesis, so the call makes no recursive
  call of its own: the recursion is never more than two calls deep. No operation of the
  computation can raise on a string, so the model has no error result.
\<close>

theorem calculate_total:
  "calculate s =
     (if str_in ''style='' (lower s) then (1, 0, 0, 0)
      else (0, int (length (findall rx_id (clean_selector s))),
            int (length (findall rx_class (clean_selector s))) +
            int (length (findall rx_attr (clean_selector s))) +
            count_pseudo_classes (clean_selector s),
            count_elements (clean_selector s) +
            int (length (findall rx_pseudo_element (clean_selector s))))) \<and>
   (\<forall>arg \<in> set (findall rx_not (clean_selector s)).
      length arg < length s \<and>
      findall rx_not (clean_selector arg) = [] \<and>
      findall rx_is_has (clean_selector arg) = []) \<and>
   (\<forall>args \<in> set (findall rx_is_has (clean_selector s)).
      \<forall>p \<in> set (split_on CHR '','' args).
        length (strip p) < length s \<and>
        findall rx_not (clean_selector (strip p)) = [] \<and>
        findall rx_is_has (clean_selector (strip p)) = [])"
proof (intro conjI ballI)
  show "calculate s =
     (if str_in ''style='' (lower s) then (1, 0, 0, 0)
      else (0, int (length (findall rx_id (clean_selector s))),
            int (length (findall rx_class (clean_selector s))) +
            int (length (findall rx_attr (clean_selector s))) +
            count_pseudo_classes (clean_selector s),
            count_elements (clean_selector s) +
            int (length (findall rx_pseudo_element (clean_selector s)))))"
    by (simp add: calculate_style calculate_unfold)
next
  fix arg assume "arg \<in> set (findall rx_not (clean_selector s))"
  from not_arg[OF this]
  have l: "length arg < length (clean_selector s)" and n: "CHR '')'' \<notin> set arg" by simp_all
  from l length_clean_selector[of s] show "length arg < length s" by simp
  from no_rparen_no_recursion[OF n]
  show "findall rx_not (clean_selector arg) = []"
    and "findall rx_is_has (clean_selector arg) = []" by simp_all
next
  fix args p
  assume "args \<in> set (findall rx_is_has (clean_selector s))"
    and "p \<in> set (split_on CHR '','' args)"
  from is_has_piece[OF this]
  have l: "length (strip p) < length (clean_selector s)"
    and n: "CHR '')'' \<notin> set (strip p)" by simp_all
  from l length_clean_selector[of s] show "length (strip p) < length s" by simp
  from no_rparen_no_recursion[OF n]
  show "findall rx_not (clean_selector (strip p)) = []"
    and "findall rx_is_has (clean_selector (strip p)) = []" by simp_all
qed

theorem calculate_total_witness:
  "''.a'' \<in> set (findall rx_not (clean_selector '':not(.a):is(.b, .c)'')) \<and>
   length ''.a'' < length '':not(.a):is(.b, .c)'' \<and>
   findall rx_not (clean_selector ''.a'') = [] \<and>
   findall rx_is_has (clean_selector ''.a'') = [] \<and>
   ''.b, .c'' \<in> set (findall rx_is_has (clean_selector '':not(.a):is(.b, .c)'')) \<and>
   '' .c'' \<in> set (split_on CHR '','' ''.b, .c'') \<and>
   length (strip '' .c'') < length '':not(.a):is(.b, .c)'' \<and>
   findall rx_not (clean_selector (strip '' .c'')) = [] \<and>
   findall rx_is_has (clean_selector (strip '' .c'')) = []"
proof -
  have a: "''.a'' \<in> set (findall rx_not (clean_selector '':not(.a):is(.b, .c)''))"
    by code_simp
  have b: "''.b, .c'' \<in> set (findall rx_is_has (clean_selector '':not(.a):is(.b, .c)''))"
    by code_simp
  have c: "'' .c'' \<in> set (split_on CHR '','' ''.b, .c'')"
    by code_simp
  from a b c calculate_total[of "'':not(.a):is(.b, .c)''"] show ?thesis by blast
qed

subsection \<open>Non-negative components\<close>

lemma fold_nondecreasing:
  assumes "\<And>x (c::int). c \<le> f x c"
  shows "c0 \<le> fold f xs c0"
proof (induction xs arbitrary: c0)
  case Nil
  show ?case by simp
next
  case (Cons x xs)
  have "c0 \<le> f x c0" by (rule assms)
  also have "\<dots> \<le> fold f xs (f x c0)" by (rule Cons.IH)
  finally show ?case by simp
qed

lemma count_elements_nonneg: "0 \<le> count_elements s"
  unfolding count_elements_def Let_def
  by (rule fold_nondecreasing) simp

lemma item2_nonneg: "0 \<le> item2 (calculate s)"
proof (induction "length s" arbitrary: s rule: less_induct)
  case less
  show ?case
  proof (cases "str_in ''style='' (lower s)")
    case True
    then show ?thesis by (simp add: calculate_style)
  next
    case False
    let ?c = "clean_selector s"
    have le: "length ?c \<le> length s" by (rule length_clean_selector)
    have n: "0 \<le> sum_list (map (\<lambda>arg. item2 (calculate arg)) (findall rx_not ?c))"
    proof (rule sum_list_nonneg)
      fix x assume "x \<in> set (map (\<lambda>arg. item2 (calculate arg)) (findall rx_not ?c))"
      then obtain arg where a: "arg \<in> set (findall rx_not ?c)" and x: "x = item2 (calculate arg)"
        by auto
      from not_arg[OF a] le have "length arg < length s" by simp
      with less x show "0 \<le> x" by simp
    qed
    have i: "0 \<le> sum_list (map (\<lambda>args. Max (set (map (\<lambda>c. item2 (calculate (strip c)))
                                        (split_on CHR '','' args)))) (findall rx_is_has ?c))"
    proof (rule sum_list_nonneg)
      fix x assume "x \<in> set (map (\<lambda>args. Max (set (map (\<lambda>c. item2 (calculate (strip c)))
                                        (split_on CHR '','' args)))) (findall rx_is_has ?c))"
      then obtain args where a: "args \<in> set (findall rx_is_has ?c)"
        and x: "x = Max (set (map (\<lambda>c. item2 (calculate (strip c))) (split_on CHR '','' args)))"
        by auto
      obtain p ps where sp: "split_on CHR '','' args = p # ps"
        using split_on_not_Nil[of "CHR '',''" args] by (cases "split_on CHR '','' args") auto
      have "length (strip p) < length s"
        using is_has_piece[OF a, of p] sp le by simp
      then have "0 \<le> item2 (calculate (strip p))" using less by simp
      also have "\<dots> \<le> x" unfolding x sp by (rule Max_ge) simp_all
      finally show "0 \<le> x" .
    qed
    from n i have "0 \<le> count_pseudo_classes ?c"
      by (simp add: count_pseudo_classes_sum)
    then show ?thesis by (simp add: calculate_unfold[OF False])
  qed
qed

text \<open>
  C9. For every selector, the four components of \<open>calculate\<close> are non-negative
  integers.
\<close>

theorem calculate_nonneg:
  "0 \<le> item0 (calculate s) \<and> 0 \<le> item1 (calculate s) \<and>
   0 \<le> item2 (calculate s) \<and> 0 \<le> item3 (calculate s)"
proof (cases "str_in ''style='' (lower s)")
  case True
  then show ?thesis by (simp add: calculate_style)
next
  case False
  have "0 \<le> item3 (calculate s)"
    using count_elements_nonneg[of "clean_selector s"] by (simp add: calculate_unfold[OF False])
  moreover have "0 \<le> item0 (calculate s)" "0 \<le> item1 (calculate s)"
    by (simp_all add: calculate_unfold[OF False])
  ultimately show ?thesis using item2_nonneg[of s] by simp
qed

subsection \<open>Empty and blank selectors\<close>

lemma sublist_hd_in_set: "sublist (x # xs) ys \<Longrightarrow> x \<in> set ys"
  by (auto simp: sublist_def)

lemma lower_char_space: "is_space c \<Longrightarrow> lower_char c = c"
  by (auto simp: is_space_def lower_char_def in_range_def)

lemma blank_no_style:
  assumes "\<forall>c \<in> set s. is_space c"
  shows "\<not> str_in ''style='' (lower s)"
proof
  assume "str_in ''style='' (lower s)"
  then have "CHR ''s'' \<in> set (lower s)"
    unfolding str_in_iff_sublist by (rule sublist_hd_in_set)
  then obtain c where c: "c \<in> set s" "lower_char c = CHR ''s''" by (auto simp: lower_def)
  with assms have "is_space c" by simp
  with c(2) have "is_space (CHR ''s'')" by (simp add: lower_char_space)
  then show False by (simp add: is_space_def in_range_def code_def)
qed

lemma clean_selector_blank:
  assumes "\<forall>c \<in> set s. is_space c"
  shows "clean_selector s = []"
proof -
  have d: "dquote \<notin> set s"
    using assms by (auto simp: dquote_def is_space_def in_range_def code_def)
  have q: "squote \<notin> set s"
    using assms by (auto simp: squote_def is_space_def in_range_def code_def)
  show ?thesis
    unfolding clean_selector_def Let_def rx_dquoted_def rx_squoted_def
    by (simp add: re_sub_absent d q strip_blank assms)
qed

lemma count_pseudo_classes_Nil: "count_pseudo_classes [] = 0"
  by (simp add: count_pseudo_classes_sum findall_def)

lemma count_elements_Nil: "count_elements [] = 0"
  by (simp add: count_elements_def strip_def)

text \<open>
  C10. On the empty string and on every string of white space only, \<open>calculate\<close>
  returns (0,0,0,0): the cleaned selector is empty, no pattern matches in it, and the
  only part that \<open>re.split\<close> gives is empty and counts no element.
\<close>

theorem calculate_blank:
  assumes "\<forall>c \<in> set s. is_space c"
  shows "calculate s = (0, 0, 0, 0)"
  by (simp add: calculate_unfold[OF blank_no_style[OF assms]] clean_selector_blank[OF assms]
      findall_def count_pseudo_classes_Nil count_elements_Nil)

theorem calculate_blank_witness:
  "calculate [] = (0, 0, 0, 0) \<and> calculate [CHR '' '', CHR 0x09, CHR 0x0A] = (0, 0, 0, 0)"
proof -
  have a: "\<forall>c \<in> set []. is_space c" by simp
  have b: "\<forall>c \<in> set [CHR '' '', CHR 0x09, CHR 0x0A]. is_space c"
    by (simp add: is_space_def in_range_def code_def)
  from calculate_blank[OF a] calculate_blank[OF b] show ?thesis by blast
qed

subsection \<open>\<open>:is(...)\<close> and \<open>:has(...)\<close>\<close>












subsection \<open>The threshold comparison\<close>

text \<open>
  C6. \<open>is_high_specificity\<close> holds exactly when the specificity is strictly greater than
  the threshold in the lexicographic order over inline, id, class and element, which is
  also the library's lexicographic order on tuples. A specificity equal to the threshold
  (0,1,3,3) is not high, and (0,2,0,0) is high against (0,1,3,3).
\<close>

theorem is_high_specificity_lexicographic:
  "is_high_specificity \<lparr>threshold = b\<rparr> a = lex_greater a b \<and>
   lex_greater a b = (b < a) \<and>
   \<not> is_high_specificity \<lparr>threshold = (0, 1, 3, 3)\<rparr> (0, 1, 3, 3) \<and>
   is_high_specificity \<lparr>threshold = (0, 1, 3, 3)\<rparr> (0, 2, 0, 0)"
proof -
  obtain a0 a1 a2 a3 where a: "a = (a0, a1, a2, a3)" by (cases a)
  obtain b0 b1 b2 b3 where b: "b = (b0, b1, b2, b3)" by (cases b)
  show ?thesis
    unfolding a b by (auto simp: is_high_specificity_def lex_greater_def less_prod_def)
qed

subsection \<open>Selectors inside \<open>:where(...)\<close>\<close>

text \<open>
  C1. The class inside \<open>:where(...)\<close> is counted: \<open>calculate\<close> gives the selector
  \<open>:where(.a)\<close> the class component 1, the same as it gives \<open>.a\<close>. The pattern for classes
  is applied to the whole cleaned selector, with the arguments of \<open>:where\<close> in it.
\<close>

theorem where_argument_counted:
  "calculate '':where(.a)'' = (0, 0, 1, 0) \<and> calculate ''.a'' = (0, 0, 1, 0)"
  by code_simp

subsection \<open>Pseudo-elements\<close>

text \<open>
  C3. Each of the eight pseudo-element names, with one or two colons, adds 1 to the
  element component. The names \<open>before\<close>, \<open>after\<close>, \<open>first-line\<close> and \<open>first-letter\<close>
  add nothing to the class component; \<open>backdrop\<close>, \<open>placeholder\<close>, \<open>marker\<close> and
  \<open>selection\<close> are missing from the look-ahead of the pseudo-class pattern and are
  counted as a pseudo-class as well, so their class component is 1.
\<close>

theorem pseudo_elements_counted_as_classes:
  "map calculate ['':before'', '':after'', '':first-line'', '':first-letter'',
                  ''::before'', ''::after'', ''::first-line'', ''::first-letter'']
     = replicate 8 (0, 0, 0, 1) \<and>
   map calculate ['':backdrop'', '':placeholder'', '':marker'', '':selection'',
                  ''::backdrop'', ''::placeholder'', ''::marker'', ''::selection'']
     = replicate 8 (0, 0, 1, 1)"
  by code_simp

subsection \<open>Extraction\<close>

text \<open>
  C2, as stated, fails: the selector of the rule nested in \<open>@media\<close> is extracted too.
\<close>

theorem extract_media_counterexample:
  "extract_selectors ''/* c */ .a, .b { color: red; } @media screen { .c { color: blue; } }''
     \<noteq> [''.a'', ''.b'']"
  by code_simp

text \<open>
  C2, amended. For the stylesheet text of the claim, \<open>extract_selectors\<close> returns
  \<open>.a\<close>, \<open>.b\<close> and \<open>.c\<close>: the \<open>@media\<close> prelude is discarded, and the selector of
  the rule block nested inside the at-rule is extracted like any other.
\<close>

theorem extract_media_nested:
  "extract_selectors ''/* c */ .a, .b { color: red; } @media screen { .c { color: blue; } }''
     = [''.a'', ''.b'', ''.c'']"
  by code_simp

subsection \<open>The report\<close>

lemma calculate_id_three_classes: "calculate ''#id .a .b .c'' = (0, 1, 3, 0)"
  by code_simp

lemma calculate_div: "calculate ''div'' = (0, 0, 0, 1)"
  by code_simp

text \<open>
  C4, as stated, fails: on a stylesheet with exactly these two selectors the count of
  high-specificity selectors is not 1.
\<close>

theorem analyze_high_count_counterexample:
  "extract_selectors ''#id .a .b .c, div { color: red; }'' = [''#id .a .b .c'', ''div''] \<and>
   rp_high_specificity_count
     (analyze_content (new_calculator (Some (0, 1, 3, 3))) ''f.css''
        ''#id .a .b .c, div { color: red; }'') \<noteq> 1"
  by code_simp

text \<open>
  C4, amended. Analyzing a stylesheet whose extracted selectors are exactly
  \<open>#id .a .b .c\<close> and \<open>div\<close> with the threshold (0,1,3,3) gives a report with
  \<open>high_specificity_count\<close> 0 and \<open>total_selectors\<close> 2: (0,1,3,0) and (0,0,0,1) are both
  below the threshold.
\<close>

theorem analyze_two_selectors:
  assumes "extract_selectors css = [''#id .a .b .c'', ''div'']"
  shows "rp_high_specificity_count
           (analyze_content (new_calculator (Some (0, 1, 3, 3))) path css) = 0 \<and>
         rp_total_selectors
           (analyze_content (new_calculator (Some (0, 1, 3, 3))) path css) = 2"
  using assms
  by (simp add: analyze_content_def analyze_selector_def new_calculator_def Let_def
      init_threshold_def is_high_specificity_def calculate_id_three_classes calculate_div)

theorem analyze_two_selectors_witness:
  "extract_selectors ''#id .a .b .c, div { color: red; }'' = [''#id .a .b .c'', ''div''] \<and>
   rp_high_specificity_count
     (analyze_content (new_calculator (Some (0, 1, 3, 3))) ''f.css''
        ''#id .a .b .c, div { color: red; }'') = 0 \<and>
   rp_total_selectors
     (analyze_content (new_calculator (Some (0, 1, 3, 3))) ''f.css''
        ''#id .a .b .c, div { color: red; }'') = 2"
proof -
  have e: "extract_selectors ''#id .a .b .c, div { color: red; }'' = [''#id .a .b .c'', ''div'']"
    by code_simp
  from e analyze_two_selectors[OF e, of "''f.css''"] show ?thesis by simp
qed

end
